theory Spec2Isabelle
  imports Main
begin

section \<open>The example client: examples/websocket/python-client.py\<close>

subsection \<open>Values, exceptions and subscripting\<close>

text \<open>
  A result yielded by \<^verbatim>\<open>session.subscribe\<close> is a decoded JSON value. A Python dict is an
  association list read with \<open>map_of\<close>.
\<close>

datatype json =
    JNull
  | JBool bool
  | JNum int
  | JStr string
  | JArr "json list"
  | JObj "(string \<times> json) list"

text \<open>
  The exceptions the code can meet. The last three derive from \<^verbatim>\<open>BaseException\<close> only, so
  \<^verbatim>\<open>except Exception\<close> does not catch them; all others derive from \<^verbatim>\<open>Exception\<close>.
\<close>

datatype exn =
    KeyError string
  | TypeError
  | TransportAlreadyConnected
  | TransportClosed
  | TransportProtocolError
  | TransportQueryError json
  | HandlerError string
  | CancelledError
  | KeyboardInterrupt
  | SystemExit

fun is_Exception :: "exn \<Rightarrow> bool" where
  "is_Exception CancelledError = False"
| "is_Exception KeyboardInterrupt = False"
| "is_Exception SystemExit = False"
| "is_Exception _ = True"

text \<open>\<^verbatim>\<open>obj[key]\<close> with a string key: only a dict answers, a missing key raises KeyError.\<close>

fun subscript :: "json \<Rightarrow> string \<Rightarrow> exn + json" where
  "subscript (JObj kvs) key =
     (case map_of kvs key of None \<Rightarrow> Inl (KeyError key) | Some v \<Rightarrow> Inr v)"
| "subscript _ key = Inl TypeError"

definition bind_exn :: "exn + 'a \<Rightarrow> ('a \<Rightarrow> exn + 'b) \<Rightarrow> exn + 'b" where
  "bind_exn m f = (case m of Inl e \<Rightarrow> Inl e | Inr v \<Rightarrow> f v)"

text \<open>Subscripting one value with several keys in turn, as the handlers' f-strings do.\<close>

fun lookups :: "json \<Rightarrow> string list \<Rightarrow> exn + unit" where
  "lookups x [] = Inr ()"
| "lookups x (k # ks) = (case subscript x k of Inl e \<Rightarrow> Inl e | Inr _ \<Rightarrow> lookups x ks)"

text \<open>\<^verbatim>\<open>', '.join(v)\<close>: \<open>v\<close> must be an iterable of strings.\<close>

fun is_JStr :: "json \<Rightarrow> bool" where
  "is_JStr (JStr _) = True"
| "is_JStr _ = False"

fun join :: "json \<Rightarrow> exn + unit" where
  "join (JArr xs) = (if list_all is_JStr xs then Inr () else Inl TypeError)"
| "join (JStr _) = Inr ()"
| "join (JObj _) = Inr ()"
| "join _ = Inl TypeError"

subsection \<open>The monitor object\<close>

record WebsocketsTransport =
  url :: string
  init_payload :: "(string \<times> string) list"
  subprotocols :: "string list"

record IncidentMonitor =
  transport :: WebsocketsTransport
  fetch_schema_from_transport :: bool
  running :: bool

text \<open>
  \<^verbatim>\<open>__init__\<close>. The subprotocol is the library's constant
  \<^verbatim>\<open>WebsocketsTransport.GRAPHQLWS_SUBPROTOCOL\<close>. The client object only refers to the transport
  and sets \<^verbatim>\<open>fetch_schema_from_transport\<close>, so its fields are kept in the monitor record.
\<close>

definition IncidentMonitor_init :: "string \<Rightarrow> string \<Rightarrow> IncidentMonitor" where
  "IncidentMonitor_init ws_url auth_token =
     \<lparr> transport =
         \<lparr> url = ws_url,
           init_payload = [(''Authorization'', ''Bearer '' @ auth_token)],
           subprotocols = [''graphql-transport-ws''] \<rparr>,
       fetch_schema_from_transport = False,
       running = False \<rparr>"

text \<open>
  The payload of the \<^verbatim>\<open>connection_init\<close> frame of a handshake attempt made while the
  credential source currently holds \<open>current_token\<close>: the transport sends the
  \<^verbatim>\<open>init_payload\<close> it was constructed with; the code consults nothing at the attempt.
\<close>

definition connection_init :: "IncidentMonitor \<Rightarrow> string \<Rightarrow> (string \<times> string) list" where
  "connection_init m current_token = init_payload (transport m)"

subsection \<open>The three subscription coroutines\<close>

datatype sub = Critical | Updates | NewIncidents

fun root_field :: "sub \<Rightarrow> string" where
  "root_field Critical = ''criticalIncidents''"
| "root_field Updates = ''incidentUpdates''"
| "root_field NewIncidents = ''newIncidents''"

datatype log_entry =
    Info_Starting
  | Info_Press_Ctrl_C
  | Info_Subscribing sub "string list"
  | Info_Critical json
  | Info_Update json json
  | Info_New json json
  | Error_Subscription sub exn
  | Info_Stopping

text \<open>The per-event \<^verbatim>\<open>logger.info\<close> line: its f-string subscripts the payload left to right.\<close>

fun describe :: "sub \<Rightarrow> json \<Rightarrow> exn + log_entry" where
  "describe Critical x =
     bind_exn (subscript x ''id'') (\<lambda>i. Inr (Info_Critical i))"
| "describe Updates x =
     bind_exn (subscript x ''updateType'') (\<lambda>u.
     bind_exn (subscript x ''incidentId'') (\<lambda>i. Inr (Info_Update u i)))"
| "describe NewIncidents x =
     bind_exn (subscript x ''id'') (\<lambda>i.
     bind_exn (subscript x ''title'') (\<lambda>t. Inr (Info_New i t)))"

text \<open>
  What a call of a consumer handler does to the coroutine that calls it: it returns, it
  raises, or it never returns (a handler is called synchronously, not awaited).
\<close>

datatype hresult = Returns | Raises exn | Stalls

record consumer =
  handler :: "sub \<Rightarrow> json \<Rightarrow> hresult"
  severities :: "sub \<Rightarrow> string list"

text \<open>
  The first log line of a coroutine. \<^verbatim>\<open>subscribe_to_critical_incidents\<close> takes no
  severities and logs none.
\<close>

fun subscribing :: "consumer \<Rightarrow> sub \<Rightarrow> log_entry" where
  "subscribing c Critical = Info_Subscribing Critical []"
| "subscribing c k = Info_Subscribing k (severities c k)"

text \<open>
  Where a subscription coroutine stands: not yet run, suspended in \<^verbatim>\<open>async with self.client\<close>,
  suspended in \<^verbatim>\<open>async for\<close> waiting for the next result, returned (None), or left by an
  exception that \<^verbatim>\<open>except Exception\<close> did not catch.
\<close>

datatype coro_state = Pending | Entering | Iterating | Returned | Escaped exn

record state =
  monitor :: IncidentMonitor
  coro :: "sub \<Rightarrow> coro_state"
  logs :: "log_entry list"
  calls :: "(sub \<times> json) list"
  connects :: "(sub \<times> (string \<times> string) list) list"
  sessions :: "sub list"
  blocked :: bool

text \<open>
  What the event loop, the library and the outside world do to the program, one at a time:
  a coroutine is run for the first time, its \<^verbatim>\<open>async with\<close> gets its session, its
  \<^verbatim>\<open>async for\<close> gets a result, an exception is raised at its suspension point, its result
  stream ends, or \<^verbatim>\<open>stop()\<close> is called (by the signal handler). All coroutines run on one
  event loop: an action for a coroutine takes effect only if the coroutine is suspended
  where the action applies and the loop is not stuck in a handler that does not return.
\<close>

datatype action =
    Start sub
  | Entered sub
  | Yield sub json
  | Raise sub exn
  | Complete sub
  | Stop

fun target :: "action \<Rightarrow> sub option" where
  "target (Start k) = Some k"
| "target (Entered k) = Some k"
| "target (Yield k r) = Some k"
| "target (Raise k e) = Some k"
| "target (Complete k) = Some k"
| "target Stop = None"

definition stop :: "state \<Rightarrow> state" where
  "stop s = s\<lparr> logs := logs s @ [Info_Stopping],
               monitor := (monitor s)\<lparr> running := False \<rparr> \<rparr>"

text \<open>
  An exception inside the \<^verbatim>\<open>try\<close>: \<^verbatim>\<open>except Exception as e\<close> logs it and the coroutine
  returns; anything else leaves the coroutine.
\<close>

definition throw :: "sub \<Rightarrow> exn \<Rightarrow> state \<Rightarrow> state" where
  "throw k e s =
     (if is_Exception e
      then s\<lparr> logs := logs s @ [Error_Subscription k e], coro := (coro s)(k := Returned) \<rparr>
      else s\<lparr> coro := (coro s)(k := Escaped e) \<rparr>)"

text \<open>
  One turn of the body of \<^verbatim>\<open>async for result in session.subscribe(...)\<close>. The handler
  call is recorded in \<open>calls\<close> when it is made. Leaving the \<^verbatim>\<open>async with\<close> block after
  \<^verbatim>\<open>break\<close> is part of the same turn.
\<close>

definition body :: "consumer \<Rightarrow> sub \<Rightarrow> json \<Rightarrow> state \<Rightarrow> state" where
  "body c k result s =
     (case subscript result (root_field k) of
        Inl e \<Rightarrow> throw k e s
      | Inr x \<Rightarrow>
          (case describe k x of
             Inl e \<Rightarrow> throw k e s
           | Inr line \<Rightarrow>
               (let s1 = s\<lparr> logs := logs s @ [line], calls := calls s @ [(k, x)] \<rparr>
                in case handler c k x of
                     Stalls \<Rightarrow> s1\<lparr> blocked := True \<rparr>
                   | Raises e \<Rightarrow> throw k e s1
                   | Returns \<Rightarrow>
                       (if \<not> running (monitor s1)
                        then s1\<lparr> coro := (coro s1)(k := Returned) \<rparr>
                        else s1))))"

definition step :: "consumer \<Rightarrow> state \<Rightarrow> action \<Rightarrow> state" where
  "step c s a =
     (case a of
        Stop \<Rightarrow> stop s
      | Start k \<Rightarrow>
          (if blocked s \<or> coro s k \<noteq> Pending then s
           else s\<lparr> logs := logs s @ [subscribing c k],
                   connects := connects s @ [(k, init_payload (transport (monitor s)))],
                   coro := (coro s)(k := Entering) \<rparr>)
      | Entered k \<Rightarrow>
          (if blocked s \<or> coro s k \<noteq> Entering then s
           else s\<lparr> sessions := sessions s @ [k], coro := (coro s)(k := Iterating) \<rparr>)
      | Yield k r \<Rightarrow>
          (if blocked s \<or> coro s k \<noteq> Iterating then s else body c k r s)
      | Raise k e \<Rightarrow>
          (if blocked s \<or> (coro s k \<noteq> Entering \<and> coro s k \<noteq> Iterating) then s
           else throw k e s)
      | Complete k \<Rightarrow>
          (if blocked s \<or> coro s k \<noteq> Iterating then s
           else s\<lparr> coro := (coro s)(k := Returned) \<rparr>))"

fun exec :: "consumer \<Rightarrow> state \<Rightarrow> action list \<Rightarrow> state" where
  "exec c s [] = s"
| "exec c s (a # as) = exec c (step c s a) as"

subsection \<open>main and its handlers\<close>

definition raising :: "exn + unit \<Rightarrow> hresult" where
  "raising m = (case m of Inl e \<Rightarrow> Raises e | Inr _ \<Rightarrow> Returns)"

definition handle_critical_incident :: "json \<Rightarrow> hresult" where
  "handle_critical_incident incident =
     raising (bind_exn (lookups incident [''id'', ''title'', ''severity'', ''state'', ''createdAt''])
       (\<lambda>_. bind_exn (subscript incident ''affectedResources'') join))"

definition handle_incident_update :: "json \<Rightarrow> hresult" where
  "handle_incident_update update =
     raising (lookups update [''updateType'', ''incidentId'', ''timestamp''])"

definition handle_new_incident :: "json \<Rightarrow> hresult" where
  "handle_new_incident incident = raising (lookups incident [''severity'', ''title''])"

fun main_handler :: "sub \<Rightarrow> json \<Rightarrow> hresult" where
  "main_handler Critical = handle_critical_incident"
| "main_handler Updates = handle_incident_update"
| "main_handler NewIncidents = handle_new_incident"

fun main_severities :: "sub \<Rightarrow> string list" where
  "main_severities Critical = []"
| "main_severities Updates = [''P0'', ''P1'']"
| "main_severities NewIncidents = [''P0'', ''P1'', ''P2'']"

definition main_consumer :: consumer where
  "main_consumer = \<lparr> handler = main_handler, severities = main_severities \<rparr>"

text \<open>The state in which \<^verbatim>\<open>main\<close> reaches \<^verbatim>\<open>asyncio.gather\<close>.\<close>

definition main_state :: "string \<Rightarrow> string \<Rightarrow> state" where
  "main_state ws_url auth_token =
     \<lparr> monitor = (IncidentMonitor_init ws_url auth_token)\<lparr> running := True \<rparr>,
       coro = (\<lambda>_. Pending),
       logs = [Info_Starting, Info_Press_Ctrl_C],
       calls = [],
       connects = [],
       sessions = [],
       blocked = False \<rparr>"

text \<open>The payloads a subscription's handler was called with, in call order.\<close>

definition delivered :: "sub \<Rightarrow> state \<Rightarrow> json list" where
  "delivered k s = map snd (filter (\<lambda>p. fst p = k) (calls s))"

text \<open>The results the library yields to a subscription in a run, in order.\<close>

fun emitted :: "sub \<Rightarrow> action list \<Rightarrow> json list" where
  "emitted k [] = []"
| "emitted k (Yield k' r # as) = (if k' = k then r # emitted k as else emitted k as)"
| "emitted k (_ # as) = emitted k as"

subsection \<open>Predicates and sample inputs used in the statements\<close>

text \<open>A coroutine that has ended: it returned, or an exception left it.\<close>

fun finished :: "coro_state \<Rightarrow> bool" where
  "finished Returned = True"
| "finished (Escaped e) = True"
| "finished _ = False"

text \<open>
  A result that one turn of the loop body gets through: it has the subscription's root
  field, the log line's fields are there, and the handler returns on the payload.
\<close>

definition accepted :: "consumer \<Rightarrow> sub \<Rightarrow> json \<Rightarrow> bool" where
  "accepted c k r =
     (case subscript r (root_field k) of
        Inl _ \<Rightarrow> False
      | Inr x \<Rightarrow> (case describe k x of Inl _ \<Rightarrow> False | Inr _ \<Rightarrow> handler c k x = Returns))"

definition sample_incident :: json where
  "sample_incident =
     JObj [(''id'', JStr ''inc-1''), (''title'', JStr ''db down''),
           (''severity'', JStr ''P0''), (''state'', JStr ''open''),
           (''createdAt'', JStr ''t0''), (''affectedResources'', JArr [JStr ''db''])]"

definition sample_result :: json where
  "sample_result = JObj [(''criticalIncidents'', sample_incident)]"

text \<open>\<^verbatim>\<open>main\<close> once the critical-incidents subscription has its session.\<close>

definition serving :: state where
  "serving =
     exec main_consumer (main_state ''ws://localhost:8080/graphql/ws'' ''tok'')
       [Start Critical, Entered Critical]"

text \<open>More sample inputs: an incident with a given id, results wrapping a payload.\<close>

definition incident :: "string \<Rightarrow> json" where
  "incident i =
     JObj [(''id'', JStr i), (''title'', JStr ''db down''),
           (''severity'', JStr ''P0''), (''state'', JStr ''open''),
           (''createdAt'', JStr ''t0''), (''affectedResources'', JArr [JStr ''db''])]"

definition critical_result :: "json \<Rightarrow> json" where
  "critical_result x = JObj [(''criticalIncidents'', x)]"

definition sample_update :: json where
  "sample_update = JObj [(''updateType'', JStr ''CREATED''), (''incidentId'', JStr ''inc-1''),
     (''timestamp'', JStr ''t0'')]"

definition update_result :: "json \<Rightarrow> json" where
  "update_result x = JObj [(''incidentUpdates'', x)]"








section \<open>The subscription engine of the specification\<close>

text \<open>
  Modelled from the spec: the subscription registry, the connection lifecycle manager and
  the dispatcher (spec sections 3 and 4) are not part of the example client; everything in
  this section follows the specification's words. Real time (backoff delays, timeouts) and
  queue capacity are left out.
\<close>

text \<open>
  Modelled from the spec: a subscription id names one request on one connection
  generation. It pairs the generation in which it was assigned with the client key; the
  Subscribe frame carries it and the server tags its frames with it (spec section 6).
\<close>

type_synonym sid = "nat \<times> nat"

text \<open>Modelled from the spec: SubscriptionRequest, with its client-assigned key (section 3).\<close>

record SubscriptionRequest =
  req_key :: nat
  document :: string
  variables :: "(string \<times> json) list"

text \<open>Modelled from the spec: the states of the connection lifecycle (section 4.2).\<close>

datatype conn_state = Idle | Connecting | Handshaking | Ready | Draining | BackoffWait | Closed

text \<open>Modelled from the spec: the outbound frames the claims speak of (section 4.1).\<close>

datatype frame =
    ConnectionInit string
  | Subscribe sid string "(string \<times> json) list"
  | Unsubscribe sid
  | Bye

text \<open>Modelled from the spec: InboundEvent, a data, error or complete frame with its id.\<close>

datatype inbound = Ev_Next sid json | Ev_Error sid json | Ev_Complete sid

fun ev_sid :: "inbound \<Rightarrow> sid" where
  "ev_sid (Ev_Next i p) = i"
| "ev_sid (Ev_Error i p) = i"
| "ev_sid (Ev_Complete i) = i"

text \<open>Modelled from the spec: the delivery queue behind a Handle and what it yields.\<close>

datatype item = Payload json | TerminalError json | Completed

record queue =
  items :: "item list"
  closed :: bool

text \<open>
  Modelled from the spec: the engine's state. The registry keeps the requests in insertion
  order; \<open>active\<close> holds the ActiveSubscription entries (client key and id) of the
  current generation; \<open>outbox\<close> is the sequence of frames sent.
\<close>

record engine =
  conn :: conn_state
  generation :: nat
  registry :: "SubscriptionRequest list"
  active :: "(nat \<times> sid) list"
  queues :: "nat \<rightharpoonup> queue"
  outbox :: "frame list"

definition init_engine :: engine where
  "init_engine =
     \<lparr> conn = Idle, generation = 0, registry = [], active = [], queues = Map.empty,
       outbox = [] \<rparr>"

text \<open>
  Modelled from the spec: issuing Subscribe for a request on the current generation, which
  creates its ActiveSubscription.
\<close>

definition issue :: "SubscriptionRequest \<Rightarrow> engine \<Rightarrow> engine" where
  "issue r s =
     s\<lparr> outbox := outbox s @ [Subscribe (generation s, req_key r) (document r) (variables r)],
         active := active s @ [(req_key r, (generation s, req_key r))] \<rparr>"

text \<open>
  Modelled from the spec: \<^verbatim>\<open>add(request)\<close> (section 4.3). A request whose key is already
  registered is not added again; a new one gets a fresh queue and, if the connection is
  Ready, its Subscribe at once.
\<close>

definition add :: "SubscriptionRequest \<Rightarrow> engine \<Rightarrow> engine" where
  "add r s =
     (if req_key r \<in> set (map req_key (registry s)) then s
      else
        (let s1 = s\<lparr> registry := registry s @ [r],
                      queues := (queues s)(req_key r \<mapsto> \<lparr> items = [], closed = False \<rparr>) \<rparr>
         in if conn s1 = Ready then issue r s1 else s1))"

definition close_queue :: "nat \<Rightarrow> (nat \<rightharpoonup> queue) \<Rightarrow> (nat \<rightharpoonup> queue)" where
  "close_queue k qs = (case qs k of None \<Rightarrow> qs | Some q \<Rightarrow> qs(k \<mapsto> q\<lparr> closed := True \<rparr>))"

text \<open>
  Modelled from the spec: \<^verbatim>\<open>cancel(key)\<close> (sections 3, 4.3 and 4.5). It removes the request
  and marks the queue closed; if the key has an ActiveSubscription, it sends the
  unsubscribe frame for its id and drops the entry.
\<close>

definition cancel :: "nat \<Rightarrow> engine \<Rightarrow> engine" where
  "cancel k s =
     (let s1 = s\<lparr> registry := filter (\<lambda>r. req_key r \<noteq> k) (registry s),
                   queues := close_queue k (queues s) \<rparr>
      in case map_of (active s1) k of
           None \<Rightarrow> s1
         | Some i \<Rightarrow> s1\<lparr> outbox := outbox s1 @ [Unsubscribe i],
                          active := filter (\<lambda>p. fst p \<noteq> k) (active s1) \<rparr>)"

text \<open>Modelled from the spec: \<^verbatim>\<open>snapshot()\<close>, the requests in insertion order.\<close>

definition snapshot :: "engine \<Rightarrow> SubscriptionRequest list" where
  "snapshot s = registry s"

text \<open>
  Modelled from the spec: ConnectionAck while Handshaking (section 4.2). The generation is
  incremented, Subscribe is replayed for every registry entry in insertion order, and the
  connection is Ready.
\<close>

definition handshake_ack :: "engine \<Rightarrow> engine" where
  "handshake_ack s =
     (if conn s \<noteq> Handshaking then s
      else foldl (\<lambda>s' r. issue r s')
             (s\<lparr> generation := Suc (generation s), conn := Ready \<rparr>) (snapshot s))"

text \<open>
  Modelled from the spec: the dispatcher (section 4.4). An event's id is resolved to a
  client key through the ActiveSubscription entries; an id that resolves to nothing is
  dropped. A payload is pushed on the key's queue; an error or complete frame ends the
  queue and removes the entry.
\<close>

definition resolve :: "engine \<Rightarrow> sid \<Rightarrow> nat option" where
  "resolve s i = map_of (map (\<lambda>p. (snd p, fst p)) (active s)) i"

definition push :: "nat \<Rightarrow> item \<Rightarrow> (nat \<rightharpoonup> queue) \<Rightarrow> (nat \<rightharpoonup> queue)" where
  "push k x qs =
     (case qs k of
        None \<Rightarrow> qs
      | Some q \<Rightarrow> if closed q then qs else qs(k \<mapsto> q\<lparr> items := items q @ [x] \<rparr>))"

definition terminate :: "nat \<Rightarrow> item \<Rightarrow> (nat \<rightharpoonup> queue) \<Rightarrow> (nat \<rightharpoonup> queue)" where
  "terminate k x qs = close_queue k (push k x qs)"

definition dispatch :: "inbound \<Rightarrow> engine \<Rightarrow> engine" where
  "dispatch ev s =
     (case resolve s (ev_sid ev) of
        None \<Rightarrow> s
      | Some k \<Rightarrow>
          (case ev of
             Ev_Next i p \<Rightarrow> s\<lparr> queues := push k (Payload p) (queues s) \<rparr>
           | Ev_Error i p \<Rightarrow>
               s\<lparr> queues := terminate k (TerminalError p) (queues s),
                   active := filter (\<lambda>q. fst q \<noteq> k) (active s) \<rparr>
           | Ev_Complete i \<Rightarrow>
               s\<lparr> queues := terminate k Completed (queues s),
                   active := filter (\<lambda>q. fst q \<noteq> k) (active s) \<rparr>))"

text \<open>
  Modelled from the spec: what can happen to the engine, and the lifecycle transitions of
  section 4.2. \<open>Opened\<close> carries the credential current at that handshake attempt.
  Draining discards the ActiveSubscription entries of the dead generation and does not
  touch the registry. Shutdown cancels every Handle, sends Bye and closes (section 5).
\<close>

definition shutdown :: "engine \<Rightarrow> engine" where
  "shutdown s =
     (let s1 = foldl (\<lambda>s' r. cancel (req_key r) s') s (registry s)
      in s1\<lparr> conn := Closed, active := [], outbox := outbox s1 @ [Bye] \<rparr>)"

datatype op =
    Add SubscriptionRequest
  | Cancel nat
  | Wake
  | Opened string
  | Open_failed
  | Ack
  | Handshake_failed
  | Transport_failure
  | Drained
  | Backoff_elapsed
  | Inbound inbound
  | Shutdown

definition move :: "conn_state \<Rightarrow> conn_state \<Rightarrow> engine \<Rightarrow> engine" where
  "move a b s = (if conn s = a then s\<lparr> conn := b \<rparr> else s)"

fun apply_op :: "engine \<Rightarrow> op \<Rightarrow> engine" where
  "apply_op s (Add r) = add r s"
| "apply_op s (Cancel k) = cancel k s"
| "apply_op s Wake = (if registry s = [] then s else move Idle Connecting s)"
| "apply_op s (Opened tok) =
     (if conn s = Connecting
      then s\<lparr> conn := Handshaking, outbox := outbox s @ [ConnectionInit tok] \<rparr> else s)"
| "apply_op s Open_failed = move Connecting BackoffWait s"
| "apply_op s Ack = handshake_ack s"
| "apply_op s Handshake_failed = move Handshaking BackoffWait s"
| "apply_op s Transport_failure = move Ready Draining s"
| "apply_op s Drained =
     (if conn s = Draining then s\<lparr> active := [], conn := BackoffWait \<rparr> else s)"
| "apply_op s Backoff_elapsed = move BackoffWait Connecting s"
| "apply_op s (Inbound ev) = (if conn s = Ready then dispatch ev s else s)"
| "apply_op s Shutdown = shutdown s"

fun run :: "engine \<Rightarrow> op list \<Rightarrow> engine" where
  "run s [] = s"
| "run s (x # xs) = run (apply_op s x) xs"

text \<open>
  What every reachable engine state satisfies: the active ids are of the current
  generation, and there are none unless the connection is Ready or Draining.
\<close>

definition engine_inv :: "engine \<Rightarrow> bool" where
  "engine_inv s =
     ((\<forall>p \<in> set (active s). fst (snd p) = generation s) \<and>
      (conn s \<noteq> Ready \<and> conn s \<noteq> Draining \<longrightarrow> active s = []))"

text \<open>Sample inputs: a request, an engine that is Ready, and one that has reconnected.\<close>

definition sample_request :: SubscriptionRequest where
  "sample_request =
     \<lparr> req_key = 1, document = ''subscription { criticalIncidents { id } }'',
       variables = [] \<rparr>"

definition connected :: engine where
  "connected = run init_engine [Add sample_request, Wake, Opened ''tok'', Ack]"

definition reconnected :: engine where
  "reconnected =
     run connected [Transport_failure, Drained, Backoff_elapsed, Opened ''tok'', Ack]"


section \<open>Properties of the example client\<close>

lemmas step_defs = step_def body_def throw_def stop_def Let_def

subsection \<open>Frame lemmas\<close>

lemma step_other_coro: "target a \<noteq> Some k \<Longrightarrow> coro (step c s a) k = coro s k"
  by (cases a) (auto simp: step_defs split: sum.splits hresult.splits)

lemma step_other_delivered:
  "target a \<noteq> Some k \<Longrightarrow> delivered k (step c s a) = delivered k s"
  by (cases a) (auto simp: step_defs delivered_def split: sum.splits hresult.splits)

lemma exec_other:
  "\<forall>a \<in> set t. target a \<noteq> Some k \<Longrightarrow>
     coro (exec c s t) k = coro s k \<and> delivered k (exec c s t) = delivered k s"
  by (induction t arbitrary: s) (simp_all add: step_other_coro step_other_delivered)

lemma serving_simps:
  "coro serving Critical = Iterating" "blocked serving = False" "calls serving = []"
  "running (monitor serving) = True"
  "coro serving Updates = Pending" "coro serving NewIncidents = Pending"
  by (simp_all add: serving_def main_state_def step_defs main_consumer_def
        IncidentMonitor_init_def)

lemma sample_simps:
  "subscript sample_result (root_field Critical) = Inr sample_incident"
  "describe Critical sample_incident = Inr (Info_Critical (JStr ''inc-1''))"
  "handle_critical_incident sample_incident = Returns"
  by (simp_all add: sample_result_def sample_incident_def bind_exn_def
        handle_critical_incident_def raising_def)

subsection \<open>Stopping\<close>

text \<open>
  C9. \<^verbatim>\<open>stop()\<close> only clears the running flag (and logs): it changes no coroutine and calls
  no handler. A subscription loop reads the flag only after it has handed a result to its
  handler: a result that arrives after \<^verbatim>\<open>stop()\<close> is still delivered, and only then does
  the coroutine return. A subscription that gets nothing more stays where it is, however
  often \<^verbatim>\<open>stop()\<close> is called and whatever the other subscriptions do.
\<close>

theorem stop_is_deferred:
  "running (monitor (stop s)) = False \<and> coro (stop s) = coro s \<and> calls (stop s) = calls s \<and>
   (coro s k = Iterating \<and> \<not> blocked s \<and> subscript r (root_field k) = Inr x \<and>
      describe k x = Inr line \<and> handler c k x = Returns \<longrightarrow>
      coro (exec c s [Stop]) k = Iterating \<and>
      delivered k (exec c s [Stop, Yield k r]) = delivered k s @ [x] \<and>
      coro (exec c s [Stop, Yield k r]) k = Returned) \<and>
   ((\<forall>a \<in> set t. target a \<noteq> Some k) \<longrightarrow> coro (exec c s (Stop # t)) k = coro s k)"
proof -
  have a: "running (monitor (stop s)) = False \<and> coro (stop s) = coro s \<and> calls (stop s) = calls s"
    by (simp add: stop_def)
  have b: "coro s k = Iterating \<and> \<not> blocked s \<and> subscript r (root_field k) = Inr x \<and>
      describe k x = Inr line \<and> handler c k x = Returns \<longrightarrow>
      coro (exec c s [Stop]) k = Iterating \<and>
      delivered k (exec c s [Stop, Yield k r]) = delivered k s @ [x] \<and>
      coro (exec c s [Stop, Yield k r]) k = Returned"
    by (simp add: step_defs delivered_def)
  have c: "(\<forall>a \<in> set t. target a \<noteq> Some k) \<longrightarrow> coro (exec c s (Stop # t)) k = coro s k"
  proof
    assume h: "\<forall>a \<in> set t. target a \<noteq> Some k"
    have "\<forall>a \<in> set (Stop # t). target a \<noteq> Some k" using h by simp
    then show "coro (exec c s (Stop # t)) k = coro s k" using exec_other by blast
  qed
  from a b c show ?thesis by blast
qed

theorem stop_is_deferred_witness:
  "coro serving Critical = Iterating \<and> \<not> blocked serving \<and>
   subscript sample_result (root_field Critical) = Inr sample_incident \<and>
   describe Critical sample_incident = Inr (Info_Critical (JStr ''inc-1'')) \<and>
   handler main_consumer Critical sample_incident = Returns \<and>
   delivered Critical (exec main_consumer serving [Stop, Yield Critical sample_result]) =
     delivered Critical serving @ [sample_incident] \<and>
   coro (exec main_consumer serving [Stop, Yield Critical sample_result]) Critical = Returned \<and>
   coro (exec main_consumer serving (Stop # [Stop, Yield Updates sample_result])) Critical =
     coro serving Critical"
proof -
  have h: "coro serving Critical = Iterating \<and> \<not> blocked serving \<and>
      subscript sample_result (root_field Critical) = Inr sample_incident \<and>
      describe Critical sample_incident = Inr (Info_Critical (JStr ''inc-1'')) \<and>
      handler main_consumer Critical sample_incident = Returns"
    by (simp add: serving_simps sample_simps main_consumer_def
          del: root_field.simps describe.simps)
  have n: "\<forall>a \<in> set [Stop, Yield Updates sample_result]. target a \<noteq> Some Critical"
    by simp
  show ?thesis
    using stop_is_deferred [of serving Critical sample_result sample_incident
      "Info_Critical (JStr ''inc-1'')" main_consumer "[Stop, Yield Updates sample_result]"] h n
    by blast
qed

subsection \<open>A blocked event loop, an ended coroutine\<close>

lemma step_blocked:
  "blocked s \<Longrightarrow> blocked (step c s a) \<and> calls (step c s a) = calls s \<and> coro (step c s a) = coro s
     \<and> connects (step c s a) = connects s \<and> sessions (step c s a) = sessions s"
  by (cases a) (auto simp: step_defs)

lemma exec_blocked:
  "blocked s \<Longrightarrow> blocked (exec c s t) \<and> calls (exec c s t) = calls s \<and> coro (exec c s t) = coro s
     \<and> connects (exec c s t) = connects s \<and> sessions (exec c s t) = sessions s"
  by (induction t arbitrary: s) (simp_all add: step_blocked)

lemma step_finished:
  "finished (coro s k) \<Longrightarrow>
     coro (step c s a) k = coro s k \<and> delivered k (step c s a) = delivered k s \<and>
     filter (\<lambda>p. fst p = k) (connects (step c s a)) = filter (\<lambda>p. fst p = k) (connects s) \<and>
     filter (\<lambda>j. j = k) (sessions (step c s a)) = filter (\<lambda>j. j = k) (sessions s)"
  by (cases a) (auto simp: step_defs delivered_def split: sum.splits hresult.splits)

lemma exec_finished:
  "finished (coro s k) \<Longrightarrow>
     coro (exec c s t) k = coro s k \<and> delivered k (exec c s t) = delivered k s \<and>
     filter (\<lambda>p. fst p = k) (connects (exec c s t)) = filter (\<lambda>p. fst p = k) (connects s) \<and>
     filter (\<lambda>j. j = k) (sessions (exec c s t)) = filter (\<lambda>j. j = k) (sessions s)"
proof (induction t arbitrary: s)
  case Nil
  then show ?case by simp
next
  case (Cons a t)
  have f: "finished (coro (step c s a) k)"
    using Cons.prems step_finished [of s k c a] by simp
  show ?case
    using Cons.IH [OF f] step_finished [OF Cons.prems, of c a] by simp
qed

lemma exec_dead:
  "blocked s \<or> finished (coro s k) \<Longrightarrow> delivered k (exec c s t) = delivered k s"
  using exec_blocked [of s c t] exec_finished [of s k c t] by (auto simp: delivered_def)

subsection \<open>Order of delivery\<close>

lemma step_keeps_started:
  "coro s k \<noteq> Pending \<Longrightarrow> coro s k \<noteq> Entering \<Longrightarrow>
     coro (step c s a) k \<noteq> Pending \<and> coro (step c s a) k \<noteq> Entering"
  by (cases a) (auto simp: step_defs split: sum.splits hresult.splits)

lemma step_yield_cases:
  "coro s k = Iterating \<Longrightarrow> \<not> blocked s \<Longrightarrow>
     (\<exists>x. subscript r (root_field k) = Inr x \<and>
          delivered k (step c s (Yield k r)) = delivered k s @ [x]) \<or>
     (delivered k (step c s (Yield k r)) = delivered k s \<and>
      finished (coro (step c s (Yield k r)) k))"
  by (auto simp: step_defs delivered_def split: sum.splits hresult.splits)

lemma step_nonyield_delivered:
  "\<forall>r. a \<noteq> Yield k r \<Longrightarrow> delivered k (step c s a) = delivered k s"
  by (cases a) (auto simp: step_defs delivered_def split: sum.splits hresult.splits)

lemma emitted_nonyield: "\<forall>r. a \<noteq> Yield k r \<Longrightarrow> emitted k (a # t) = emitted k t"
  by (cases a) auto

lemma exec_prefix:
  "coro s k \<noteq> Pending \<Longrightarrow> coro s k \<noteq> Entering \<Longrightarrow>
   \<exists>n. map Inr (delivered k (exec c s t)) =
        map Inr (delivered k s) @ map (\<lambda>r. subscript r (root_field k)) (take n (emitted k t))"
proof (induction t arbitrary: s)
  case Nil
  then show ?case by simp
next
  case (Cons a t)
  show ?case
  proof (cases "blocked s \<or> finished (coro s k)")
    case True
    have "delivered k (exec c s (a # t)) = delivered k s"
      using exec_dead [OF True] .
    then have "map Inr (delivered k (exec c s (a # t))) =
        map Inr (delivered k s) @ map (\<lambda>r. subscript r (root_field k)) (take 0 (emitted k (a # t)))"
      by simp
    then show ?thesis by blast
  next
    case False
    then have live: "coro s k = Iterating" "\<not> blocked s"
      using Cons.prems by (cases "coro s k"; simp)+
    have started: "coro (step c s a) k \<noteq> Pending" "coro (step c s a) k \<noteq> Entering"
      using step_keeps_started [OF Cons.prems] by simp_all
    obtain n where n: "map Inr (delivered k (exec c (step c s a) t)) =
        map Inr (delivered k (step c s a)) @
        map (\<lambda>r. subscript r (root_field k)) (take n (emitted k t))"
      using Cons.IH [OF started] by blast
    show ?thesis
    proof (cases "\<exists>r. a = Yield k r")
      case True
      then obtain r where a: "a = Yield k r" by blast
      from step_yield_cases [OF live, of r c] show ?thesis
      proof
        assume "\<exists>x. subscript r (root_field k) = Inr x \<and>
          delivered k (step c s (Yield k r)) = delivered k s @ [x]"
        then obtain x where x: "subscript r (root_field k) = Inr x"
          "delivered k (step c s (Yield k r)) = delivered k s @ [x]" by blast
        have "map Inr (delivered k (exec c s (a # t))) =
          map Inr (delivered k s) @
          map (\<lambda>r. subscript r (root_field k)) (take (Suc n) (emitted k (a # t)))"
          using n x a by simp
        then show ?thesis by blast
      next
        assume d: "delivered k (step c s (Yield k r)) = delivered k s \<and>
          finished (coro (step c s (Yield k r)) k)"
        have "delivered k (exec c (step c s a) t) = delivered k (step c s a)"
          using exec_dead [of "step c s a" k c t] d a by simp
        then have "map Inr (delivered k (exec c s (a # t))) =
          map Inr (delivered k s) @
          map (\<lambda>r. subscript r (root_field k)) (take 0 (emitted k (a # t)))"
          using d a by simp
        then show ?thesis by blast
      qed
    next
      case False
      then have na: "\<forall>r. a \<noteq> Yield k r" by blast
      have "map Inr (delivered k (exec c s (a # t))) =
          map Inr (delivered k s) @
          map (\<lambda>r. subscript r (root_field k)) (take n (emitted k (a # t)))"
        using n step_nonyield_delivered [OF na, of c s] emitted_nonyield [OF na, of t] by simp
      then show ?thesis by blast
    qed
  qed
qed

lemma step_no_stall:
  "\<forall>k' x. handler c k' x \<noteq> Stalls \<Longrightarrow> \<not> blocked s \<Longrightarrow> \<not> blocked (step c s a)"
  by (cases a) (auto simp: step_defs split: sum.splits hresult.splits)

lemma step_running: "a \<noteq> Stop \<Longrightarrow> running (monitor (step c s a)) = running (monitor s)"
  by (cases a) (auto simp: step_defs split: sum.splits hresult.splits)

lemma step_accepted:
  "coro s k = Iterating \<Longrightarrow> \<not> blocked s \<Longrightarrow> running (monitor s) \<Longrightarrow> accepted c k r \<Longrightarrow>
     coro (step c s (Yield k r)) k = Iterating \<and>
     map Inr (delivered k (step c s (Yield k r))) =
       map Inr (delivered k s) @ [subscript r (root_field k)]"
  by (auto simp: step_defs delivered_def accepted_def split: sum.splits hresult.splits)

lemma exec_all_delivered:
  "coro s k = Iterating \<Longrightarrow> \<not> blocked s \<Longrightarrow> running (monitor s) \<Longrightarrow>
   \<forall>k' x. handler c k' x \<noteq> Stalls \<Longrightarrow> Stop \<notin> set t \<Longrightarrow>
   \<forall>a \<in> set t. target a = Some k \<longrightarrow> (\<exists>r. a = Yield k r \<and> accepted c k r) \<Longrightarrow>
   map Inr (delivered k (exec c s t)) =
     map Inr (delivered k s) @ map (\<lambda>r. subscript r (root_field k)) (emitted k t)"
proof (induction t arbitrary: s)
  case Nil
  then show ?case by simp
next
  case (Cons a t)
  have nb: "\<not> blocked (step c s a)" using step_no_stall Cons.prems by blast
  have ru: "running (monitor (step c s a))" using step_running [of a c s] Cons.prems by auto
  have rest: "Stop \<notin> set t"
    "\<forall>a \<in> set t. target a = Some k \<longrightarrow> (\<exists>r. a = Yield k r \<and> accepted c k r)"
    using Cons.prems by simp_all
  show ?case
  proof (cases "target a = Some k")
    case True
    then obtain r where a: "a = Yield k r" "accepted c k r" using Cons.prems by auto
    have st: "coro (step c s a) k = Iterating"
      "map Inr (delivered k (step c s a)) = map Inr (delivered k s) @ [subscript r (root_field k)]"
      using step_accepted [OF Cons.prems(1,2,3) a(2)] a(1) by simp_all
    show ?thesis
      using Cons.IH [OF st(1) nb ru Cons.prems(4) rest] st(2) a(1) by simp
  next
    case False
    have st: "coro (step c s a) k = Iterating" "delivered k (step c s a) = delivered k s"
      using step_other_coro [OF False] step_other_delivered [OF False] Cons.prems(1) by simp_all
    have em: "emitted k (a # t) = emitted k t" using False by (cases a) auto
    show ?thesis
      using Cons.IH [OF st(1) nb ru Cons.prems(4) rest] st(2) em by simp
  qed
qed

lemma main_handler_no_stall: "\<forall>k x. handler main_consumer k x \<noteq> Stalls"
proof (intro allI)
  fix k x show "handler main_consumer k x \<noteq> Stalls"
    by (cases k) (simp_all add: main_consumer_def handle_critical_incident_def
        handle_incident_update_def handle_new_incident_def raising_def split: sum.splits)
qed

lemma accepted_incident: "accepted main_consumer Critical (critical_result (incident i))"
  by (simp add: accepted_def critical_result_def incident_def main_consumer_def bind_exn_def
      handle_critical_incident_def raising_def)


text \<open>
  C5. The handler of a subscription is called with the payloads of the results yielded to
  that subscription, in the order they are yielded, whatever is interleaved for the other
  subscriptions and for \<^verbatim>\<open>stop()\<close>: what was delivered is always a prefix of what was
  emitted. While the monitor runs, no handler stalls, and every result of the subscription
  has its fields and is handled without an exception, all of them are delivered.
\<close>

theorem delivery_preserves_order:
  assumes "coro s k = Iterating"
  shows "(\<exists>n. map Inr (delivered k (exec c s t)) =
            map Inr (delivered k s) @
            map (\<lambda>r. subscript r (root_field k)) (take n (emitted k t))) \<and>
         (\<not> blocked s \<and> running (monitor s) \<and> (\<forall>k' x. handler c k' x \<noteq> Stalls) \<and>
          Stop \<notin> set t \<and>
          (\<forall>a \<in> set t. target a = Some k \<longrightarrow> (\<exists>r. a = Yield k r \<and> accepted c k r)) \<longrightarrow>
          map Inr (delivered k (exec c s t)) =
            map Inr (delivered k s) @ map (\<lambda>r. subscript r (root_field k)) (emitted k t))"
proof
  show "\<exists>n. map Inr (delivered k (exec c s t)) =
            map Inr (delivered k s) @
            map (\<lambda>r. subscript r (root_field k)) (take n (emitted k t))"
    using exec_prefix [of s k c t] assms by simp
  show "\<not> blocked s \<and> running (monitor s) \<and> (\<forall>k' x. handler c k' x \<noteq> Stalls) \<and>
          Stop \<notin> set t \<and>
          (\<forall>a \<in> set t. target a = Some k \<longrightarrow> (\<exists>r. a = Yield k r \<and> accepted c k r)) \<longrightarrow>
          map Inr (delivered k (exec c s t)) =
            map Inr (delivered k s) @ map (\<lambda>r. subscript r (root_field k)) (emitted k t)"
    using exec_all_delivered [of s k c t] assms by blast
qed

theorem delivery_preserves_order_witness:
  "coro serving Critical = Iterating \<and>
   delivered Critical (exec main_consumer serving
     [Yield Critical (critical_result (incident ''E1'')), Yield Updates (update_result sample_update),
      Yield Critical (critical_result (incident ''E2'')),
      Yield Critical (critical_result (incident ''E3''))]) =
   [incident ''E1'', incident ''E2'', incident ''E3'']"
proof -
  let ?t = "[Yield Critical (critical_result (incident ''E1'')),
      Yield Updates (update_result sample_update),
      Yield Critical (critical_result (incident ''E2'')),
      Yield Critical (critical_result (incident ''E3''))]"
  have h: "coro serving Critical = Iterating" by (simp add: serving_simps)
  have g: "\<not> blocked serving \<and> running (monitor serving) \<and>
       (\<forall>k' x. handler main_consumer k' x \<noteq> Stalls) \<and> Stop \<notin> set ?t \<and>
       (\<forall>a \<in> set ?t. target a = Some Critical \<longrightarrow>
          (\<exists>r. a = Yield Critical r \<and> accepted main_consumer Critical r))"
    using main_handler_no_stall by (simp add: serving_simps accepted_incident)
  have "map Inr (delivered Critical (exec main_consumer serving ?t)) =
      map Inr (delivered Critical serving) @
      map (\<lambda>r. subscript r (root_field Critical)) (emitted Critical ?t)"
    using delivery_preserves_order [OF h, of main_consumer ?t] g by blast
  then have "map Inr (delivered Critical (exec main_consumer serving ?t)) =
      (map Inr [incident ''E1'', incident ''E2'', incident ''E3''] :: (exn + json) list)"
    by (simp add: delivered_def serving_simps critical_result_def)
  then have "delivered Critical (exec main_consumer serving ?t) =
      [incident ''E1'', incident ''E2'', incident ''E3'']"
    by (simp only: inj_map_eq_map [OF inj_Inr])
  with h show ?thesis by blast
qed

subsection \<open>Handlers run inside the loop\<close>






subsection \<open>Failures\<close>

text \<open>
  The claim C3 as stated fails: after a transport failure the coroutine has returned; no
  connect and no subscribe is issued again, and a later result is not delivered.
\<close>

theorem resubscription_counterexample:
  "coro (exec main_consumer serving
      [Raise Critical TransportClosed, Start Critical, Entered Critical,
       Yield Critical sample_result]) Critical = Returned \<and>
   delivered Critical (exec main_consumer serving
      [Raise Critical TransportClosed, Start Critical, Entered Critical,
       Yield Critical sample_result]) = [] \<and>
   connects (exec main_consumer serving
      [Raise Critical TransportClosed, Start Critical, Entered Critical,
       Yield Critical sample_result]) = connects serving \<and>
   sessions (exec main_consumer serving
      [Raise Critical TransportClosed, Start Critical, Entered Critical,
       Yield Critical sample_result]) = sessions serving"
  by (simp add: serving_simps step_defs delivered_def)

text \<open>
  C3 (amended). After an exception (a transport failure included) is raised at the
  suspension point of a subscription coroutine, the coroutine has returned and stays
  returned: it makes no further connect attempt, opens no further session, and its handler
  is not called again. Resuming is left to the caller.
\<close>

theorem no_resubscription_after_failure:
  assumes "coro s k = Entering \<or> coro s k = Iterating" and "\<not> blocked s" and "is_Exception e"
  shows "coro (exec c s (Raise k e # t)) k = Returned \<and>
         delivered k (exec c s (Raise k e # t)) = delivered k s \<and>
         filter (\<lambda>p. fst p = k) (connects (exec c s (Raise k e # t))) =
           filter (\<lambda>p. fst p = k) (connects s) \<and>
         filter (\<lambda>j. j = k) (sessions (exec c s (Raise k e # t))) =
           filter (\<lambda>j. j = k) (sessions s)"
proof -
  have st: "coro (step c s (Raise k e)) k = Returned"
    "delivered k (step c s (Raise k e)) = delivered k s"
    "connects (step c s (Raise k e)) = connects s"
    "sessions (step c s (Raise k e)) = sessions s"
    using assms by (auto simp: step_defs delivered_def)
  have f: "finished (coro (step c s (Raise k e)) k)" using st(1) by simp
  show ?thesis
    using exec_finished [OF f, of c t] st by simp
qed

theorem no_resubscription_after_failure_witness:
  "(coro serving Critical = Entering \<or> coro serving Critical = Iterating) \<and>
   \<not> blocked serving \<and> is_Exception TransportClosed \<and>
   coro (exec main_consumer serving
     (Raise Critical TransportClosed # [Start Critical, Entered Critical,
        Yield Critical sample_result])) Critical = Returned \<and>
   delivered Critical (exec main_consumer serving
     (Raise Critical TransportClosed # [Start Critical, Entered Critical,
        Yield Critical sample_result])) = delivered Critical serving"
proof -
  have h: "coro serving Critical = Entering \<or> coro serving Critical = Iterating"
    "\<not> blocked serving" "is_Exception TransportClosed"
    by (simp_all add: serving_simps)
  show ?thesis
    using no_resubscription_after_failure [OF h, of main_consumer
        "[Start Critical, Entered Critical, Yield Critical sample_result]"] h
    by blast
qed




lemma subscript_raises_Exception: "subscript x key = Inl e \<Longrightarrow> is_Exception e"
  by (cases x) (auto split: option.splits)

lemma describe_raises_Exception: "describe k x = Inl e \<Longrightarrow> is_Exception e"
  by (cases k) (auto simp: bind_exn_def split: sum.splits dest: subscript_raises_Exception)








subsection \<open>The handshake payload\<close>

lemma step_transport: "transport (monitor (step c s a)) = transport (monitor s)"
  by (cases a) (auto simp: step_defs split: sum.splits hresult.splits)

lemma step_connects:
  "\<forall>p \<in> set (connects s). snd p = init_payload (transport (monitor s)) \<Longrightarrow>
   \<forall>p \<in> set (connects (step c s a)). snd p = init_payload (transport (monitor s))"
  by (cases a) (auto simp: step_defs split: sum.splits hresult.splits)

lemma exec_connects:
  "\<forall>p \<in> set (connects s). snd p = init_payload (transport (monitor s)) \<Longrightarrow>
   \<forall>p \<in> set (connects (exec c s t)). snd p = init_payload (transport (monitor s))"
proof (induction t arbitrary: s)
  case Nil
  then show ?case by simp
next
  case (Cons a t)
  have "\<forall>p \<in> set (connects (step c s a)). snd p = init_payload (transport (monitor (step c s a)))"
    using step_connects [OF Cons.prems, of c a] by (simp add: step_transport)
  from Cons.IH [OF this] show ?case by (simp add: step_transport)
qed

lemma main_connects:
  "map snd (connects (exec c (main_state ws_url auth_token) t)) =
     replicate (length (connects (exec c (main_state ws_url auth_token) t)))
       [(''Authorization'', ''Bearer '' @ auth_token)]"
proof -
  let ?s = "main_state ws_url auth_token"
  have "\<forall>p \<in> set (connects ?s). snd p = init_payload (transport (monitor ?s))"
    by (simp add: main_state_def)
  from exec_connects [OF this, of c t]
  have "\<forall>y \<in> set (map snd (connects (exec c ?s t))). y = [(''Authorization'', ''Bearer '' @ auth_token)]"
    by (simp add: main_state_def IncidentMonitor_init_def)
  then show ?thesis
    using replicate_length_same [of "map snd (connects (exec c ?s t))"
        "[(''Authorization'', ''Bearer '' @ auth_token)]"] by simp
qed

text \<open>
  The claim C8 as stated fails: the payload of a handshake made when the credential has
  been refreshed to \<open>new\<close> still carries the token the monitor was constructed with.
\<close>

theorem refreshed_token_counterexample:
  "connection_init (IncidentMonitor_init ''ws://localhost:8080/graphql/ws'' ''old'') ''new'' =
     [(''Authorization'', ''Bearer old'')] \<and>
   connection_init (IncidentMonitor_init ''ws://localhost:8080/graphql/ws'' ''old'') ''new'' \<noteq>
     [(''Authorization'', ''Bearer new'')]"
  by (simp add: connection_init_def IncidentMonitor_init_def)

text \<open>
  C8 (amended). The ConnectionInit payload is fixed when the monitor is constructed:
  every handshake attempt carries \<^verbatim>\<open>Bearer\<close> followed by the constructor's
  \<^verbatim>\<open>auth_token\<close>, whatever the credential is at the time of the attempt.
\<close>

theorem handshake_carries_constructor_token:
  "connection_init (IncidentMonitor_init ws_url auth_token) current_token =
     [(''Authorization'', ''Bearer '' @ auth_token)] \<and>
   map snd (connects (exec c (main_state ws_url auth_token) t)) =
     replicate (length (connects (exec c (main_state ws_url auth_token) t)))
       [(''Authorization'', ''Bearer '' @ auth_token)]"
  using main_connects [of c ws_url auth_token t]
  by (simp add: connection_init_def IncidentMonitor_init_def)

theorem handshake_carries_constructor_token_witness:
  "connection_init (IncidentMonitor_init ''ws://localhost:8080/graphql/ws'' ''tok'') ''fresh'' =
     [(''Authorization'', ''Bearer tok'')] \<and>
   map snd (connects (exec main_consumer (main_state ''ws://localhost:8080/graphql/ws'' ''tok'')
      [Start Critical, Start Updates, Start NewIncidents])) =
     [[(''Authorization'', ''Bearer tok'')], [(''Authorization'', ''Bearer tok'')],
      [(''Authorization'', ''Bearer tok'')]]"
proof -
  have l: "length (connects (exec main_consumer
      (main_state ''ws://localhost:8080/graphql/ws'' ''tok'')
      [Start Critical, Start Updates, Start NewIncidents])) = 3"
    by (simp add: main_state_def step_defs)
  show ?thesis
    using handshake_carries_constructor_token [of "''ws://localhost:8080/graphql/ws''" "''tok''"
        "''fresh''" main_consumer "[Start Critical, Start Updates, Start NewIncidents]"] l
    by (simp add: numeral_3_eq_3)
qed

subsection \<open>Sessions on the shared client\<close>








section \<open>Properties of the specified engine\<close>

lemma foldl_issue:
  "active (foldl (\<lambda>s' r. issue r s') s rs) =
     active s @ map (\<lambda>r. (req_key r, (generation s, req_key r))) rs \<and>
   generation (foldl (\<lambda>s' r. issue r s') s rs) = generation s \<and>
   conn (foldl (\<lambda>s' r. issue r s') s rs) = conn s"
  by (induction rs arbitrary: s) (simp_all add: issue_def)

lemma inv_add: "engine_inv s \<Longrightarrow> engine_inv (add r s)"
  by (auto simp: engine_inv_def add_def issue_def Let_def)

lemma inv_cancel: "engine_inv s \<Longrightarrow> engine_inv (cancel k s)"
  by (auto simp: engine_inv_def cancel_def Let_def split: option.splits)

lemma inv_ack: "engine_inv s \<Longrightarrow> engine_inv (handshake_ack s)"
  by (auto simp: engine_inv_def handshake_ack_def foldl_issue snapshot_def)

lemma inv_dispatch: "engine_inv s \<Longrightarrow> engine_inv (dispatch ev s)"
  by (auto simp: engine_inv_def dispatch_def split: option.splits inbound.splits)

lemma inv_apply: "engine_inv s \<Longrightarrow> engine_inv (apply_op s x)"
proof (cases x)
  case (Add r)
  assume "engine_inv s"
  then show ?thesis using Add inv_add by simp
next
  case (Cancel k)
  assume "engine_inv s"
  then show ?thesis using Cancel inv_cancel by simp
next
  case Ack
  assume "engine_inv s"
  then show ?thesis using Ack inv_ack by simp
next
  case (Inbound ev)
  assume "engine_inv s"
  then show ?thesis using Inbound inv_dispatch by simp
qed (auto simp: engine_inv_def move_def shutdown_def Let_def)

lemma inv_run: "engine_inv s \<Longrightarrow> engine_inv (run s xs)"
  by (induction xs arbitrary: s) (simp_all add: inv_apply)

lemma inv_init: "engine_inv init_engine"
  by (simp add: engine_inv_def init_engine_def)

lemma resolve_stale: "engine_inv s \<Longrightarrow> fst i < generation s \<Longrightarrow> resolve s i = None"
  by (auto simp: engine_inv_def resolve_def map_of_eq_None_iff)

lemma run_append: "run s (xs @ ys) = run (run s xs) ys"
  by (induction xs arbitrary: s) simp_all

lemmas engine_defs = init_engine_def add_def issue_def handshake_ack_def snapshot_def
  move_def sample_request_def Let_def

lemma connected_simps:
  "conn connected = Ready" "generation connected = 1"
  "active connected = [(1, (1, 1))]"
  "outbox connected =
     [ConnectionInit ''tok'', Subscribe (1, 1) ''subscription { criticalIncidents { id } }'' []]"
  "map_option items (queues connected 1) = Some []"
  by (simp_all add: connected_def engine_defs)

lemma reconnected_simps:
  "conn reconnected = Ready" "generation reconnected = 2"
  "active reconnected = [(1, (2, 1))]"
  "map_option items (queues reconnected 1) = Some []"
  "map_option closed (queues reconnected 1) = Some False"
  by (simp_all add: reconnected_def connected_def engine_defs)

text \<open>
  C4. In every state the engine can reach, an inbound event whose id was assigned in a
  generation before the current one resolves to no subscription: dispatching it changes
  nothing, so nothing is delivered to any Handle.
\<close>

theorem stale_events_are_dropped:
  assumes "s = run init_engine ops" and "fst (ev_sid ev) < generation s"
  shows "dispatch ev s = s"
proof -
  have "engine_inv s" using assms(1) inv_run [OF inv_init] by simp
  then have "resolve s (ev_sid ev) = None" using assms(2) resolve_stale by blast
  then show ?thesis by (simp add: dispatch_def)
qed

theorem stale_events_are_dropped_witness:
  "fst (ev_sid (Ev_Next (1, 1) sample_incident)) < generation reconnected \<and>
   dispatch (Ev_Next (1, 1) sample_incident) reconnected = reconnected \<and>
   map_option items (queues (dispatch (Ev_Next (2, 1) sample_incident) reconnected) 1) =
     Some [Payload sample_incident]"
proof -
  have r: "reconnected = run init_engine
      ([Add sample_request, Wake, Opened ''tok'', Ack] @
       [Transport_failure, Drained, Backoff_elapsed, Opened ''tok'', Ack])"
    by (simp only: run_append reconnected_def connected_def)
  have h: "fst (ev_sid (Ev_Next (1, 1) sample_incident)) < generation reconnected"
    by (simp add: reconnected_simps)
  have d: "map_option items (queues (dispatch (Ev_Next (2, 1) sample_incident) reconnected) 1) =
     Some [Payload sample_incident]"
    using reconnected_simps
    by (auto simp: dispatch_def resolve_def push_def split: option.splits)
  show ?thesis
    using stale_events_are_dropped [OF r h] h d by blast
qed

lemma close_queue_twice: "close_queue k (close_queue k qs) = close_queue k qs"
  by (auto simp: close_queue_def split: option.splits)

lemma map_of_filter_key: "map_of (filter (\<lambda>p. fst p \<noteq> k) xs) k = None"
  by (auto simp: map_of_eq_None_iff)

text \<open>
  C7. Cancelling a subscription that has been cancelled is a no-op: the second cancel
  leaves the engine as the first left it, so no second unsubscribe frame is sent, and no
  error arises (cancel is total).
\<close>

theorem cancel_is_idempotent:
  "cancel k (cancel k s) = cancel k s \<and> outbox (cancel k (cancel k s)) = outbox (cancel k s)"
  by (auto simp: cancel_def Let_def close_queue_twice map_of_filter_key split: option.splits)

theorem cancel_is_idempotent_witness:
  "outbox (cancel 1 connected) = outbox connected @ [Unsubscribe (1, 1)] \<and>
   outbox (cancel 1 (cancel 1 connected)) = outbox connected @ [Unsubscribe (1, 1)]"
proof -
  have o: "outbox (cancel 1 connected) = outbox connected @ [Unsubscribe (1, 1)]"
    by (simp add: cancel_def Let_def connected_simps)
  show ?thesis
    using cancel_is_idempotent [of 1 connected] o by simp
qed

text \<open>The example client's own \<^verbatim>\<open>stop()\<close>: a second call only logs once more.\<close>

lemma stop_twice: "stop (stop s) = (stop s)\<lparr> logs := logs (stop s) @ [Info_Stopping] \<rparr>"
  by (simp add: stop_def)

end
